theory Spec2Isabelle
  imports Complex_Main
begin

section \<open>The string kernel of GPy: \<open>StringKernel.calc_k\<close>\<close>

text \<open>
  The source is \<^verbatim>\<open>GPy/kern/src/string.py\<close>:
  \<^verbatim>\<open>
    def calc_k(self, s1, s2):
        n = len(s1)
        m = len(s2)
        dp = [[1.0] * (m + 1)] * (n + 1)
        p = [0.0] * (m + 1)
        for i in xrange(1, n + 1):
            last = 0
            p[0] = 0
            for k in xrange(1, m + 1):
                p[k] = p[last]
                if s2[k - 1] == s1[i - 1]:
                    p[k] = p[last] + dp[i - 1][k - 1]
                    last = k
            for k in xrange(1, m + 1):
                dp[i][k] = dp[i - 1][k] + p[k]
        return dp[n][m]
  \<close>
  The method builds list objects and assigns into them, and the outer list \<open>dp\<close> holds
  \<open>n + 1\<close> references to one and the same row. The embedding therefore keeps an explicit
  store of objects: a reference is an index into the store, a new object is appended to it,
  and an assignment \<open>xs[i] = v\<close> updates the object a reference points to.

  Python floats are modelled as real numbers: the embedding computes with exact arithmetic
  (every number the method produces is a whole number, which a double holds exactly below
  \<open>2^53\<close>). Indices are natural numbers; both loops start at 1 (\<open>xrange(1, ...)\<close>), so
  \<open>k - 1\<close> and \<open>i - 1\<close> never go below 0 and Python's negative indices do not arise.
  \<open>xrange\<close> is the Python 2 builtin.
\<close>

subsection \<open>Objects, references, errors\<close>

text \<open>
  \<open>TypeError\<close> and \<open>IndexError\<close> are what Python raises from \<open>len\<close>, from a call with a
  missing argument and from subscripts. \<open>InvalidInputError\<close> is the error kind the
  specification names; no statement of the source raises it.
\<close>

datatype error = TypeError | IndexError | InvalidInputError

text \<open>
  The objects of the store: a sequence of symbols (an argument of \<open>calc_k\<close>), a list of
  floats (the row and \<open>p\<close>), a list of references (\<open>dp\<close>), and a kernel instance with the
  three values \<open>__init__\<close> hands to its base class.
\<close>

datatype 'a obj =
    Seq "'a list"
  | Floats "real list"
  | Refs "nat list"
  | Kernel nat nat string

text \<open>An argument of a call: left out, \<open>None\<close>, or a reference to an object.\<close>

datatype arg = Absent | PyNone | Ref nat

text \<open>
  The state: the store, and a history variable \<open>trace\<close> that records the store after each
  executed statement that touches it. The history is only written, never read, by the
  program.
\<close>

record 'a state =
  heap :: "'a obj list"
  trace :: "'a obj list list"

definition tick :: "'a state \<Rightarrow> 'a state" where
  "tick st = st\<lparr>trace := trace st @ [heap st]\<rparr>"

text \<open>
  \<open>len(v)\<close>: defined on a sequence, a \<open>TypeError\<close> on \<open>None\<close> and on a kernel. The store is
  typed: the sequences a caller passes are \<open>Seq\<close> objects (a list of numbers passed as a
  sequence is a \<open>Seq\<close> of numbers), while \<open>Floats\<close> and \<open>Refs\<close> are the lists the method
  builds for itself, to which no caller holds a reference. A reference to one of those, or
  to nothing, is outside the inputs of the model and is treated as not a sequence.
\<close>

definition len :: "arg \<Rightarrow> 'a state \<Rightarrow> error + nat" where
  "len v st =
     (case v of
        Ref a \<Rightarrow>
          (if a < length (heap st) then
             (case heap st ! a of
                Seq xs \<Rightarrow> Inr (length xs)
              | _ \<Rightarrow> Inl TypeError)
           else Inl TypeError)
      | _ \<Rightarrow> Inl TypeError)"

text \<open>\<open>v[i]\<close> on an argument.\<close>

definition get_sym :: "arg \<Rightarrow> nat \<Rightarrow> 'a state \<Rightarrow> error + 'a" where
  "get_sym v i st =
     (case v of
        Ref a \<Rightarrow>
          (if a < length (heap st) then
             (case heap st ! a of
                Seq xs \<Rightarrow> (if i < length xs then Inr (xs ! i) else Inl IndexError)
              | _ \<Rightarrow> Inl TypeError)
           else Inl TypeError)
      | _ \<Rightarrow> Inl TypeError)"

text \<open>\<open>a[i]\<close> on a list of floats and on a list of references.\<close>

definition get_float :: "nat \<Rightarrow> nat \<Rightarrow> 'a state \<Rightarrow> error + real" where
  "get_float a i st =
     (if a < length (heap st) then
        (case heap st ! a of
           Floats fs \<Rightarrow> (if i < length fs then Inr (fs ! i) else Inl IndexError)
         | _ \<Rightarrow> Inl TypeError)
      else Inl TypeError)"

definition get_ref :: "nat \<Rightarrow> nat \<Rightarrow> 'a state \<Rightarrow> error + nat" where
  "get_ref a i st =
     (if a < length (heap st) then
        (case heap st ! a of
           Refs rs \<Rightarrow> (if i < length rs then Inr (rs ! i) else Inl IndexError)
         | _ \<Rightarrow> Inl TypeError)
      else Inl TypeError)"

text \<open>The assignment \<open>a[i] = v\<close> into a list of floats: one statement, one new store.\<close>

definition set_float :: "nat \<Rightarrow> nat \<Rightarrow> real \<Rightarrow> 'a state \<Rightarrow> error + 'a state" where
  "set_float a i v st =
     (if a < length (heap st) then
        (case heap st ! a of
           Floats fs \<Rightarrow>
             (if i < length fs
              then Inr (tick (st\<lparr>heap := (heap st)[a := Floats (fs[i := v])]\<rparr>))
              else Inl IndexError)
         | _ \<Rightarrow> Inl TypeError)
      else Inl TypeError)"

text \<open>A new object gets the next free reference.\<close>

definition new_obj :: "'a obj \<Rightarrow> 'a state \<Rightarrow> nat \<times> 'a state" where
  "new_obj ob st = (length (heap st), st\<lparr>heap := heap st @ [ob]\<rparr>)"

subsection \<open>The method\<close>

text \<open>
  The body of the first inner loop, for one \<open>k\<close>:
  \<^verbatim>\<open>
    p[k] = p[last]
    if s2[k - 1] == s1[i - 1]:
        p[k] = p[last] + dp[i - 1][k - 1]
        last = k
  \<close>
  It returns the new value of \<open>lst\<close>.
\<close>

definition fill_p_step ::
  "arg \<Rightarrow> arg \<Rightarrow> nat \<Rightarrow> nat \<Rightarrow> nat \<Rightarrow> nat \<Rightarrow> nat \<Rightarrow> 'a state \<Rightarrow> (error + nat) \<times> 'a state" where
  "fill_p_step s1 s2 dp p i k lst st =
     (case get_float p lst st of Inl e \<Rightarrow> (Inl e, st) | Inr v \<Rightarrow>
     (case set_float p k v st of Inl e \<Rightarrow> (Inl e, st) | Inr st1 \<Rightarrow>
     (case get_sym s2 (k - 1) st1 of Inl e \<Rightarrow> (Inl e, st1) | Inr a \<Rightarrow>
     (case get_sym s1 (i - 1) st1 of Inl e \<Rightarrow> (Inl e, st1) | Inr b \<Rightarrow>
        if a = b then
          (case get_float p lst st1 of Inl e \<Rightarrow> (Inl e, st1) | Inr v1 \<Rightarrow>
          (case get_ref dp (i - 1) st1 of Inl e \<Rightarrow> (Inl e, st1) | Inr r \<Rightarrow>
          (case get_float r (k - 1) st1 of Inl e \<Rightarrow> (Inl e, st1) | Inr v2 \<Rightarrow>
          (case set_float p k (v1 + v2) st1 of Inl e \<Rightarrow> (Inl e, st1) | Inr st2 \<Rightarrow>
             (Inr k, st2)))))
        else (Inr lst, st1)))))"

text \<open>\<^verbatim>\<open>for k in xrange(1, m + 1):\<close> over the first body; an error ends the loop.\<close>

fun fill_p ::
  "arg \<Rightarrow> arg \<Rightarrow> nat \<Rightarrow> nat \<Rightarrow> nat \<Rightarrow> nat list \<Rightarrow> nat \<Rightarrow> 'a state \<Rightarrow> (error + nat) \<times> 'a state" where
  "fill_p s1 s2 dp p i [] lst st = (Inr lst, st)"
| "fill_p s1 s2 dp p i (k # ks) lst st =
     (case fill_p_step s1 s2 dp p i k lst st of
        (Inl e, st') \<Rightarrow> (Inl e, st')
      | (Inr lst', st') \<Rightarrow> fill_p s1 s2 dp p i ks lst' st')"

text \<open>The body of the second inner loop: \<^verbatim>\<open>dp[i][k] = dp[i - 1][k] + p[k]\<close>.\<close>

definition add_p_step :: "nat \<Rightarrow> nat \<Rightarrow> nat \<Rightarrow> nat \<Rightarrow> 'a state \<Rightarrow> (error + unit) \<times> 'a state" where
  "add_p_step dp p i k st =
     (case get_ref dp (i - 1) st of Inl e \<Rightarrow> (Inl e, st) | Inr r \<Rightarrow>
     (case get_float r k st of Inl e \<Rightarrow> (Inl e, st) | Inr v \<Rightarrow>
     (case get_float p k st of Inl e \<Rightarrow> (Inl e, st) | Inr w \<Rightarrow>
     (case get_ref dp i st of Inl e \<Rightarrow> (Inl e, st) | Inr r' \<Rightarrow>
     (case set_float r' k (v + w) st of Inl e \<Rightarrow> (Inl e, st) | Inr st' \<Rightarrow>
        (Inr (), st'))))))"

fun add_p :: "nat \<Rightarrow> nat \<Rightarrow> nat \<Rightarrow> nat list \<Rightarrow> 'a state \<Rightarrow> (error + unit) \<times> 'a state" where
  "add_p dp p i [] st = (Inr (), st)"
| "add_p dp p i (k # ks) st =
     (case add_p_step dp p i k st of
        (Inl e, st') \<Rightarrow> (Inl e, st')
      | (Inr u, st') \<Rightarrow> add_p dp p i ks st')"

text \<open>
  The body of the outer loop, for one \<open>i\<close>: \<open>last = 0\<close>, \<open>p[0] = 0\<close>, then the two inner
  loops.
\<close>

definition outer_step ::
  "arg \<Rightarrow> arg \<Rightarrow> nat \<Rightarrow> nat \<Rightarrow> nat \<Rightarrow> nat \<Rightarrow> 'a state \<Rightarrow> (error + unit) \<times> 'a state" where
  "outer_step s1 s2 dp p m i st =
     (case set_float p 0 0 st of Inl e \<Rightarrow> (Inl e, st) | Inr st1 \<Rightarrow>
     (case fill_p s1 s2 dp p i [1..<m + 1] 0 st1 of
        (Inl e, st2) \<Rightarrow> (Inl e, st2)
      | (Inr lst, st2) \<Rightarrow> add_p dp p i [1..<m + 1] st2))"

fun outer ::
  "arg \<Rightarrow> arg \<Rightarrow> nat \<Rightarrow> nat \<Rightarrow> nat \<Rightarrow> nat list \<Rightarrow> 'a state \<Rightarrow> (error + unit) \<times> 'a state" where
  "outer s1 s2 dp p m [] st = (Inr (), st)"
| "outer s1 s2 dp p m (i # is) st =
     (case outer_step s1 s2 dp p m i st of
        (Inl e, st') \<Rightarrow> (Inl e, st')
      | (Inr u, st') \<Rightarrow> outer s1 s2 dp p m is st')"

text \<open>
  \<open>calc_k\<close>. The method is called on a kernel instance \<open>self\<close>, which the body never
  uses. A call that leaves \<open>s1\<close> or \<open>s2\<close> out fails with a \<open>TypeError\<close> before the body
  runs. \<open>[[1.0] * (m + 1)] * (n + 1)\<close> builds one row and then a list of \<open>n + 1\<close>
  references to it. The result is the value and the final state.
\<close>

definition calc_k :: "arg \<Rightarrow> arg \<Rightarrow> arg \<Rightarrow> 'a state \<Rightarrow> (error + real) \<times> 'a state" where
  "calc_k self s1 s2 st =
     (if s1 = Absent \<or> s2 = Absent then (Inl TypeError, st) else
     (case len s1 st of Inl e \<Rightarrow> (Inl e, st) | Inr n \<Rightarrow>
     (case len s2 st of Inl e \<Rightarrow> (Inl e, st) | Inr m \<Rightarrow>
        let (row, st1) = new_obj (Floats (replicate (m + 1) 1)) st;
            (dp, st2) = new_obj (Refs (replicate (n + 1) row)) st1;
            st3 = tick st2;
            (p, st4) = new_obj (Floats (replicate (m + 1) 0)) st3;
            st5 = tick st4
        in (case outer s1 s2 dp p m [1..<n + 1] st5 of
              (Inl e, st6) \<Rightarrow> (Inl e, st6)
            | (Inr u, st6) \<Rightarrow>
                (case get_ref dp n st6 of Inl e \<Rightarrow> (Inl e, st6) | Inr r \<Rightarrow>
                (case get_float r m st6 of Inl e \<Rightarrow> (Inl e, st6) | Inr v \<Rightarrow>
                   (Inr v, st6)))))))"

subsection \<open>The reference recurrence of the specification\<close>

text \<open>
  Section 4 of the specification, word for word, on a grid of independent rows (a list of
  lists is a value in HOL: updating one row leaves the others alone):
  for \<open>k\<close> from 1 to m set \<open>p[k] = p[last]\<close>; if \<open>s2[k-1] == s1[i-1]\<close> overwrite
  \<open>p[k] = p[last] + dp[i-1][k-1]\<close> and advance \<open>last = k\<close>.
\<close>

fun ref_fill_p ::
  "'a list \<Rightarrow> 'a list \<Rightarrow> real list list \<Rightarrow> nat \<Rightarrow> nat list \<Rightarrow> nat \<Rightarrow> real list \<Rightarrow> real list" where
  "ref_fill_p s1 s2 dp i [] lst p = p"
| "ref_fill_p s1 s2 dp i (k # ks) lst p =
     (let p1 = p[k := p ! lst] in
      if s2 ! (k - 1) = s1 ! (i - 1)
      then ref_fill_p s1 s2 dp i ks k (p1[k := p1 ! lst + dp ! (i - 1) ! (k - 1)])
      else ref_fill_p s1 s2 dp i ks lst p1)"

text \<open>After the inner pass, for \<open>k\<close> from 1 to m: \<open>dp[i][k] = dp[i-1][k] + p[k]\<close>.\<close>

fun ref_add_p :: "real list list \<Rightarrow> nat \<Rightarrow> nat list \<Rightarrow> real list \<Rightarrow> real list list" where
  "ref_add_p dp i [] p = dp"
| "ref_add_p dp i (k # ks) p =
     ref_add_p (dp[i := (dp ! i)[k := dp ! (i - 1) ! k + p ! k]]) i ks p"

text \<open>For each \<open>i\<close> from 1 to n: reset \<open>p[0] = 0\<close> and \<open>last = 0\<close>, then the two passes.\<close>

fun ref_outer ::
  "'a list \<Rightarrow> 'a list \<Rightarrow> nat \<Rightarrow> nat list \<Rightarrow> real list list \<Rightarrow> real list \<Rightarrow> real list list" where
  "ref_outer s1 s2 m [] dp p = dp"
| "ref_outer s1 s2 m (i # is) dp p =
     (let p0 = p[0 := 0];
          p1 = ref_fill_p s1 s2 dp i [1..<m + 1] 0 p0
      in ref_outer s1 s2 m is (ref_add_p dp i [1..<m + 1] p1) p1)"

text \<open>The grid starts with every cell 1; the result is \<open>dp[n][m]\<close>.\<close>

definition ref_grid :: "'a list \<Rightarrow> 'a list \<Rightarrow> real list list" where
  "ref_grid s1 s2 =
     ref_outer s1 s2 (length s2) [1..<length s1 + 1]
       (replicate (length s1 + 1) (replicate (length s2 + 1) 1))
       (replicate (length s2 + 1) 0)"

definition ref_similarity :: "'a list \<Rightarrow> 'a list \<Rightarrow> real" where
  "ref_similarity s1 s2 = ref_grid s1 s2 ! length s1 ! length s2"

subsection \<open>What an argument denotes, and what \<open>dp[i][k]\<close> reads\<close>

text \<open>
  The sequence an argument denotes in a state: defined exactly when \<open>len\<close> accepts the
  argument.
\<close>

definition seq_of :: "'a state \<Rightarrow> arg \<Rightarrow> 'a list option" where
  "seq_of st v =
     (case v of
        Ref a \<Rightarrow>
          (if a < length (heap st) then
             (case heap st ! a of Seq xs \<Rightarrow> Some xs | _ \<Rightarrow> None)
           else None)
      | _ \<Rightarrow> None)"

text \<open>
  The expression \<open>dp[i][k]\<close> evaluated in a store \<open>h\<close>, and the assignment
  \<open>dp[i][k] = v\<close> executed in it, with the subscripts of the method.
\<close>

definition dp_cell :: "'a obj list \<Rightarrow> nat \<Rightarrow> nat \<Rightarrow> nat \<Rightarrow> error + real" where
  "dp_cell h dp i k =
     (case get_ref dp i \<lparr>heap = h, trace = []\<rparr> of
        Inl e \<Rightarrow> Inl e
      | Inr r \<Rightarrow> get_float r k \<lparr>heap = h, trace = []\<rparr>)"

definition dp_assign :: "'a obj list \<Rightarrow> nat \<Rightarrow> nat \<Rightarrow> nat \<Rightarrow> real \<Rightarrow> error + 'a obj list" where
  "dp_assign h dp i k v =
     (case get_ref dp i \<lparr>heap = h, trace = []\<rparr> of
        Inl e \<Rightarrow> Inl e
      | Inr r \<Rightarrow>
          (case set_float r k v \<lparr>heap = h, trace = []\<rparr> of
             Inl e \<Rightarrow> Inl e
           | Inr st \<Rightarrow> Inr (heap st)))"

subsection \<open>The computation on the one shared row\<close>

text \<open>
  What the method does to the store, on plain lists: the store of a running call is the
  caller's store \<open>h0\<close> followed by the row \<open>R\<close>, the list \<open>dp\<close> of \<open>n + 1\<close> references to
  that row, and \<open>p\<close>.
\<close>

definition tables :: "'a obj list \<Rightarrow> nat \<Rightarrow> real list \<Rightarrow> real list \<Rightarrow> 'a obj list" where
  "tables h0 n R P = h0 @ [Floats R, Refs (replicate (n + 1) (length h0)), Floats P]"

text \<open>A store in which \<open>dp\<close> is \<open>n + 1\<close> references to one row of \<open>m + 1\<close> floats.\<close>

definition shared_row :: "'a obj list \<Rightarrow> nat \<Rightarrow> nat \<Rightarrow> 'a obj list \<Rightarrow> bool" where
  "shared_row h0 n m h \<longleftrightarrow>
     (\<exists>R rest. length R = m + 1 \<and> h = h0 @ Floats R # Refs (replicate (n + 1) (length h0)) # rest)"

text \<open>The first inner loop on lists: \<open>R\<close> is the row, \<open>P\<close> is \<open>p\<close>, \<open>x\<close> is \<open>s1[i - 1]\<close>.\<close>

fun row_fill :: "'a \<Rightarrow> 'a list \<Rightarrow> real list \<Rightarrow> nat list \<Rightarrow> nat \<Rightarrow> real list \<Rightarrow> real list" where
  "row_fill x ys R [] lst P = P"
| "row_fill x ys R (k # ks) lst P =
     (let P1 = P[k := P ! lst] in
      if ys ! (k - 1) = x
      then row_fill x ys R ks k (P1[k := P1 ! lst + R ! (k - 1)])
      else row_fill x ys R ks lst P1)"

text \<open>The second inner loop on lists: the row is read and written in place.\<close>

fun row_add :: "nat list \<Rightarrow> real list \<Rightarrow> real list \<Rightarrow> real list" where
  "row_add [] P R = R"
| "row_add (k # ks) P R = row_add ks P (R[k := R ! k + P ! k])"

text \<open>One iteration of the outer loop, and the outer loop over the symbols of \<open>s1\<close>.\<close>

definition row_step :: "'a \<Rightarrow> 'a list \<Rightarrow> real list \<times> real list \<Rightarrow> real list \<times> real list" where
  "row_step x ys RP =
     (let P1 = row_fill x ys (fst RP) [1..<length ys + 1] 0 ((snd RP)[0 := 0])
      in (row_add [1..<length ys + 1] P1 (fst RP), P1))"

fun row_steps :: "'a list \<Rightarrow> 'a list \<Rightarrow> real list \<times> real list \<Rightarrow> real list \<times> real list" where
  "row_steps [] ys RP = RP"
| "row_steps (x # xs) ys RP = row_steps xs ys (row_step x ys RP)"

text \<open>
  The value \<open>p[k]\<close> holds after the first inner loop: the sum of the row over the
  positions \<open>j < k\<close> where \<open>s2[j]\<close> is the symbol \<open>x\<close>.
\<close>

definition msum :: "'a \<Rightarrow> 'a list \<Rightarrow> real list \<Rightarrow> nat \<Rightarrow> real" where
  "msum x ys R k = (\<Sum>j<k. if ys ! j = x then R ! j else 0)"

text \<open>
  The number the method computes, by recursion on both sequences (read from their ends):
  the number of pairs of a subsequence of \<open>u\<close> and a subsequence of \<open>v\<close>, each given by its
  positions, that spell the same word. The empty word always counts once.
\<close>

fun pairs :: "'a list \<Rightarrow> 'a list \<Rightarrow> real" where
  "pairs [] v = 1"
| "pairs (x # u) [] = 1"
| "pairs (x # u) (y # v) =
     pairs u (y # v) + pairs (x # u) v - (if x = y then 0 else pairs u v)"

text \<open>
  \<open>occ w u\<close> is the number of ways the word \<open>w\<close> occurs in \<open>u\<close> as a subsequence (the
  number of increasing choices of positions of \<open>u\<close> that spell \<open>w\<close>), and \<open>words u v\<close> adds,
  over every choice of positions of \<open>u\<close>, the number of occurrences in \<open>v\<close> of the word
  chosen.
\<close>

fun occ :: "'a list \<Rightarrow> 'a list \<Rightarrow> nat" where
  "occ [] u = 1"
| "occ (a # w) [] = 0"
| "occ (a # w) (x # u) = occ (a # w) u + (if a = x then occ w u else 0)"

definition words :: "'a list \<Rightarrow> 'a list \<Rightarrow> nat" where
  "words u v = (\<Sum>w\<leftarrow>subseqs u. occ w v)"

section \<open>The method on the store\<close>

subsection \<open>Reading and writing the tables\<close>

lemma tables_nth [simp]:
  "tables h0 n R P ! length h0 = Floats R"
  "tables h0 n R P ! Suc (length h0) = Refs (replicate (n + 1) (length h0))"
  "tables h0 n R P ! Suc (Suc (length h0)) = Floats P"
  "a < length h0 \<Longrightarrow> tables h0 n R P ! a = h0 ! a"
  "length (tables h0 n R P) = length h0 + 3"
  by (simp_all add: tables_def nth_append)

lemma tables_upd [simp]:
  "(tables h0 n R P)[length h0 := Floats R'] = tables h0 n R' P"
  "(tables h0 n R P)[Suc (Suc (length h0)) := Floats P'] = tables h0 n R P'"
  by (simp_all add: tables_def list_update_append)

lemma get_p: "j < length P \<Longrightarrow>
  get_float (Suc (Suc (length h0))) j \<lparr>heap = tables h0 n R P, trace = tr\<rparr> = Inr (P ! j)"
  by (simp add: get_float_def)

lemma get_row: "j < length R \<Longrightarrow>
  get_float (length h0) j \<lparr>heap = tables h0 n R P, trace = tr\<rparr> = Inr (R ! j)"
  by (simp add: get_float_def)

lemma get_dp: "j \<le> n \<Longrightarrow>
  get_ref (Suc (length h0)) j \<lparr>heap = tables h0 n R P, trace = tr\<rparr> = Inr (length h0)"
  by (simp add: get_ref_def nth_Cons split: nat.split)

lemma get_arg: "a < length h0 \<Longrightarrow> h0 ! a = Seq xs \<Longrightarrow> j < length xs \<Longrightarrow>
  get_sym (Ref a) j \<lparr>heap = tables h0 n R P, trace = tr\<rparr> = Inr (xs ! j)"
  by (simp add: get_sym_def)

lemma set_p: "j < length P \<Longrightarrow>
  set_float (Suc (Suc (length h0))) j v \<lparr>heap = tables h0 n R P, trace = tr\<rparr> =
    Inr \<lparr>heap = tables h0 n R (P[j := v]), trace = tr @ [tables h0 n R (P[j := v])]\<rparr>"
  by (simp add: set_float_def tick_def)

lemma set_row: "j < length R \<Longrightarrow>
  set_float (length h0) j v \<lparr>heap = tables h0 n R P, trace = tr\<rparr> =
    Inr \<lparr>heap = tables h0 n (R[j := v]) P, trace = tr @ [tables h0 n (R[j := v]) P]\<rparr>"
  by (simp add: set_float_def tick_def)

lemma shared_row_tables: "length R = m + 1 \<Longrightarrow> shared_row h0 n m (tables h0 n R P)"
  by (auto simp: shared_row_def tables_def)

lemma len_ok: "a < length (heap st) \<Longrightarrow> heap st ! a = Seq xs \<Longrightarrow> len (Ref a) st = Inr (length xs)"
  by (simp add: len_def)

subsection \<open>The loops\<close>

lemma row_fill_length [simp]: "length (row_fill x ys R ks lst P) = length P"
  by (induction ks arbitrary: lst P) (simp_all add: Let_def)

lemma row_add_length [simp]: "length (row_add ks P R) = length R"
  by (induction ks arbitrary: R) simp_all

lemma row_step_length:
  "length (fst (row_step x ys RP)) = length (fst RP)" "length (snd (row_step x ys RP)) = length (snd RP)"
  by (simp_all add: row_step_def Let_def)

lemma row_steps_length:
  "length (fst (row_steps xs ys RP)) = length (fst RP)" "length (snd (row_steps xs ys RP)) = length (snd RP)"
  by (induction xs arbitrary: RP) (simp_all add: row_step_length)

lemma fill_p_step_ok:
  assumes "a1 < length h0" "h0 ! a1 = Seq s1" "a2 < length h0" "h0 ! a2 = Seq s2"
      and "length R = length s2 + 1" "length P = length s2 + 1"
      and "1 \<le> i" "i \<le> length s1" "i \<le> n" "1 \<le> k" "k \<le> length s2" "lst < k"
  shows "\<exists>hs. fill_p_step (Ref a1) (Ref a2) (Suc (length h0)) (Suc (Suc (length h0))) i k lst
           \<lparr>heap = tables h0 n R P, trace = tr\<rparr> =
         (Inr (if s2 ! (k - 1) = s1 ! (i - 1) then k else lst),
          \<lparr>heap = tables h0 n R (row_fill (s1 ! (i - 1)) s2 R [k] lst P), trace = tr @ hs\<rparr>)
         \<and> (\<forall>h \<in> set hs. shared_row h0 n (length s2) h)"
  using assms
  by (simp add: fill_p_step_def get_p set_p get_arg get_dp get_row Let_def shared_row_tables)

lemma fill_p_ok:
  assumes "a1 < length h0" "h0 ! a1 = Seq s1" "a2 < length h0" "h0 ! a2 = Seq s2"
      and "length R = length s2 + 1" "length P = length s2 + 1"
      and "1 \<le> i" "i \<le> length s1" "i \<le> n"
      and "\<forall>k \<in> set ks. lst < k \<and> k \<le> length s2" "sorted_wrt (<) ks"
  shows "\<exists>hs l. fill_p (Ref a1) (Ref a2) (Suc (length h0)) (Suc (Suc (length h0))) i ks lst
           \<lparr>heap = tables h0 n R P, trace = tr\<rparr> =
         (Inr l,
          \<lparr>heap = tables h0 n R (row_fill (s1 ! (i - 1)) s2 R ks lst P), trace = tr @ hs\<rparr>)
         \<and> (\<forall>h \<in> set hs. shared_row h0 n (length s2) h)"
  using assms(6,10,11)
proof (induction ks arbitrary: lst P tr)
  case Nil
  then show ?case by simp
next
  case (Cons k ks)
  let ?l = "if s2 ! (k - 1) = s1 ! (i - 1) then k else lst"
  let ?P = "row_fill (s1 ! (i - 1)) s2 R [k] lst P"
  from Cons.prems have k: "1 \<le> k" "k \<le> length s2" "lst < k" by auto
  from fill_p_step_ok[OF assms(1-5) Cons.prems(1) assms(7-9) k, of tr]
  obtain hs1 where s1: "fill_p_step (Ref a1) (Ref a2) (Suc (length h0)) (Suc (Suc (length h0))) i k lst
           \<lparr>heap = tables h0 n R P, trace = tr\<rparr> =
         (Inr ?l, \<lparr>heap = tables h0 n R ?P, trace = tr @ hs1\<rparr>)"
     and h1: "\<forall>h \<in> set hs1. shared_row h0 n (length s2) h" by blast
  have "length ?P = length s2 + 1" using Cons.prems(1) by (simp del: row_fill.simps)
  moreover have "\<forall>k' \<in> set ks. ?l < k' \<and> k' \<le> length s2" using Cons.prems k by auto
  moreover have "sorted_wrt (<) ks" using Cons.prems by simp
  ultimately obtain hs2 l where s2: "fill_p (Ref a1) (Ref a2) (Suc (length h0)) (Suc (Suc (length h0))) i ks ?l
           \<lparr>heap = tables h0 n R ?P, trace = tr @ hs1\<rparr> =
         (Inr l, \<lparr>heap = tables h0 n R (row_fill (s1 ! (i - 1)) s2 R ks ?l ?P), trace = (tr @ hs1) @ hs2\<rparr>)"
     and h2: "\<forall>h \<in> set hs2. shared_row h0 n (length s2) h"
    using Cons.IH[of ?P ?l "tr @ hs1"] by blast
  have "row_fill (s1 ! (i - 1)) s2 R ks ?l ?P = row_fill (s1 ! (i - 1)) s2 R (k # ks) lst P"
    by (simp add: Let_def)
  with s1 s2 h1 h2 show ?case
    by (intro exI[of _ "hs1 @ hs2"] exI[of _ l]) auto
qed

lemma add_p_step_ok:
  assumes "length R = m + 1" "length P = m + 1" "1 \<le> i" "i \<le> n" "k \<le> m"
  shows "add_p_step (Suc (length h0)) (Suc (Suc (length h0))) i k
           \<lparr>heap = tables h0 n R P, trace = tr\<rparr> =
         (Inr (), \<lparr>heap = tables h0 n (R[k := R ! k + P ! k]) P,
                   trace = tr @ [tables h0 n (R[k := R ! k + P ! k]) P]\<rparr>)"
  using assms by (simp add: add_p_step_def get_p set_row get_dp get_row)

lemma add_p_ok:
  assumes "length R = m + 1" "length P = m + 1" "1 \<le> i" "i \<le> n" "\<forall>k \<in> set ks. k \<le> m"
  shows "\<exists>hs. add_p (Suc (length h0)) (Suc (Suc (length h0))) i ks
           \<lparr>heap = tables h0 n R P, trace = tr\<rparr> =
         (Inr (), \<lparr>heap = tables h0 n (row_add ks P R) P, trace = tr @ hs\<rparr>)
         \<and> (\<forall>h \<in> set hs. shared_row h0 n m h)"
  using assms(1,5)
proof (induction ks arbitrary: R tr)
  case Nil
  then show ?case by simp
next
  case (Cons k ks)
  let ?R = "R[k := R ! k + P ! k]"
  have st: "add_p_step (Suc (length h0)) (Suc (Suc (length h0))) i k
           \<lparr>heap = tables h0 n R P, trace = tr\<rparr> =
         (Inr (), \<lparr>heap = tables h0 n ?R P, trace = tr @ [tables h0 n ?R P]\<rparr>)"
    using Cons.prems(2) by (intro add_p_step_ok[OF Cons.prems(1) assms(2-4)]) simp
  have len: "length ?R = m + 1" using Cons.prems(1) by simp
  obtain hs where r: "add_p (Suc (length h0)) (Suc (Suc (length h0))) i ks
           \<lparr>heap = tables h0 n ?R P, trace = tr @ [tables h0 n ?R P]\<rparr> =
         (Inr (), \<lparr>heap = tables h0 n (row_add ks P ?R) P, trace = (tr @ [tables h0 n ?R P]) @ hs\<rparr>)"
    and h: "\<forall>h \<in> set hs. shared_row h0 n m h"
    using Cons.IH[OF len, of "tr @ [tables h0 n ?R P]"] Cons.prems(2) by auto
  show ?case
    using st r h len by (intro exI[of _ "tables h0 n ?R P # hs"]) (simp add: shared_row_tables)
qed

lemma outer_step_ok:
  assumes "a1 < length h0" "h0 ! a1 = Seq s1" "a2 < length h0" "h0 ! a2 = Seq s2"
      and "length R = length s2 + 1" "length P = length s2 + 1"
      and "1 \<le> i" "i \<le> length s1" "i \<le> n"
  shows "\<exists>hs. outer_step (Ref a1) (Ref a2) (Suc (length h0)) (Suc (Suc (length h0))) (length s2) i
           \<lparr>heap = tables h0 n R P, trace = tr\<rparr> =
         (Inr (),
          \<lparr>heap = tables h0 n (fst (row_step (s1 ! (i - 1)) s2 (R, P))) (snd (row_step (s1 ! (i - 1)) s2 (R, P))),
            trace = tr @ hs\<rparr>)
         \<and> (\<forall>h \<in> set hs. shared_row h0 n (length s2) h)"
proof -
  let ?m = "length s2"
  let ?P0 = "P[0 := 0]"
  let ?P1 = "row_fill (s1 ! (i - 1)) s2 R [1..<?m + 1] 0 ?P0"
  let ?t0 = "tables h0 n R ?P0"
  have a: "set_float (Suc (Suc (length h0))) 0 0 \<lparr>heap = tables h0 n R P, trace = tr\<rparr> =
      Inr \<lparr>heap = ?t0, trace = tr @ [?t0]\<rparr>"
    using assms(6) by (simp add: set_p)
  have lp: "length ?P0 = ?m + 1" using assms(6) by simp
  have ks: "\<forall>k \<in> set [1..<?m + 1]. 0 < k \<and> k \<le> ?m" "sorted_wrt (<) [1..<?m + 1]"
    by (auto simp del: upt_Suc)
  obtain hs1 l where b: "fill_p (Ref a1) (Ref a2) (Suc (length h0)) (Suc (Suc (length h0))) i [1..<?m + 1] 0
           \<lparr>heap = ?t0, trace = tr @ [?t0]\<rparr> =
         (Inr l, \<lparr>heap = tables h0 n R ?P1, trace = (tr @ [?t0]) @ hs1\<rparr>)"
     and h1: "\<forall>h \<in> set hs1. shared_row h0 n ?m h"
    using fill_p_ok[OF assms(1-5) lp assms(7-9) ks, of "tr @ [?t0]"] by blast
  have lp1: "length ?P1 = ?m + 1" using lp by (simp del: row_fill.simps)
  have ks2: "\<forall>k \<in> set [1..<?m + 1]. k \<le> ?m" by auto
  obtain hs2 where c: "add_p (Suc (length h0)) (Suc (Suc (length h0))) i [1..<?m + 1]
           \<lparr>heap = tables h0 n R ?P1, trace = (tr @ [?t0]) @ hs1\<rparr> =
         (Inr (), \<lparr>heap = tables h0 n (row_add [1..<?m + 1] ?P1 R) ?P1, trace = ((tr @ [?t0]) @ hs1) @ hs2\<rparr>)"
     and h2: "\<forall>h \<in> set hs2. shared_row h0 n ?m h"
    using add_p_ok[OF assms(5) lp1 assms(7,9) ks2, of h0 "(tr @ [?t0]) @ hs1"] by blast
  have h0': "shared_row h0 n ?m ?t0" using assms(5) by (simp add: shared_row_tables)
  have "outer_step (Ref a1) (Ref a2) (Suc (length h0)) (Suc (Suc (length h0))) ?m i
           \<lparr>heap = tables h0 n R P, trace = tr\<rparr> =
         (Inr (), \<lparr>heap = tables h0 n (row_add [1..<?m + 1] ?P1 R) ?P1, trace = ((tr @ [?t0]) @ hs1) @ hs2\<rparr>)"
    unfolding outer_step_def a sum.case b prod.case c ..
  then show ?thesis
    using h0' h1 h2
    by (intro exI[of _ "?t0 # hs1 @ hs2"])
       (auto simp add: row_step_def Let_def simp del: row_fill.simps row_add.simps upt_Suc)
qed

lemma outer_ok:
  assumes "a1 < length h0" "h0 ! a1 = Seq s1" "a2 < length h0" "h0 ! a2 = Seq s2"
      and "n = length s1"
      and "length R = length s2 + 1" "length P = length s2 + 1"
      and "1 \<le> i" "i \<le> n + 1"
  shows "\<exists>hs R' P'. outer (Ref a1) (Ref a2) (Suc (length h0)) (Suc (Suc (length h0))) (length s2) [i..<n + 1]
           \<lparr>heap = tables h0 n R P, trace = tr\<rparr> =
         (Inr (), \<lparr>heap = tables h0 n R' P', trace = tr @ hs\<rparr>)
         \<and> (R', P') = row_steps (drop (i - 1) s1) s2 (R, P)
         \<and> (\<forall>h \<in> set hs. shared_row h0 n (length s2) h)"
  using assms(6-9)
proof (induction "n + 1 - i" arbitrary: i R P tr)
  case 0
  then have "i = n + 1" by simp
  then show ?case using assms(5) by simp
next
  case (Suc d)
  then have i: "1 \<le> i" "i \<le> length s1" "i \<le> n" using assms(5) by auto
  let ?x = "s1 ! (i - 1)"
  let ?R = "fst (row_step ?x s2 (R, P))"
  let ?P = "snd (row_step ?x s2 (R, P))"
  obtain hs1 where a: "outer_step (Ref a1) (Ref a2) (Suc (length h0)) (Suc (Suc (length h0))) (length s2) i
           \<lparr>heap = tables h0 n R P, trace = tr\<rparr> =
         (Inr (), \<lparr>heap = tables h0 n ?R ?P, trace = tr @ hs1\<rparr>)"
     and h1: "\<forall>h \<in> set hs1. shared_row h0 n (length s2) h"
    using outer_step_ok[OF assms(1-4) Suc.prems(1,2) i, of tr] by blast
  have d: "d = n + 1 - Suc i" using Suc.hyps(2) by simp
  have len: "length ?R = length s2 + 1" "length ?P = length s2 + 1"
    using Suc.prems by (simp_all add: row_step_length)
  obtain hs2 R' P' where b: "outer (Ref a1) (Ref a2) (Suc (length h0)) (Suc (Suc (length h0))) (length s2) [Suc i..<n + 1]
           \<lparr>heap = tables h0 n ?R ?P, trace = tr @ hs1\<rparr> =
         (Inr (), \<lparr>heap = tables h0 n R' P', trace = (tr @ hs1) @ hs2\<rparr>)"
     and r: "(R', P') = row_steps (drop (Suc i - 1) s1) s2 (?R, ?P)"
     and h2: "\<forall>h \<in> set hs2. shared_row h0 n (length s2) h"
    using Suc.hyps(1)[OF d len, of "tr @ hs1"] i by auto
  have up: "[i..<n + 1] = i # [Suc i..<n + 1]" using i by (simp add: upt_conv_Cons)
  have dr: "drop (i - 1) s1 = ?x # drop (Suc i - 1) s1"
    using i Cons_nth_drop_Suc[of "i - 1" s1] by simp
  have "outer (Ref a1) (Ref a2) (Suc (length h0)) (Suc (Suc (length h0))) (length s2) [i..<n + 1]
           \<lparr>heap = tables h0 n R P, trace = tr\<rparr> =
         (Inr (), \<lparr>heap = tables h0 n R' P', trace = (tr @ hs1) @ hs2\<rparr>)"
    unfolding up outer.simps a prod.case sum.case b ..
  moreover have "(R', P') = row_steps (drop (i - 1) s1) s2 (R, P)"
    unfolding dr using r by simp
  ultimately show ?case using h1 h2
    by (intro exI[of _ "hs1 @ hs2"] exI[of _ R'] exI[of _ P']) auto
qed

lemma calc_k_ok:
  fixes st :: "'a state"
  assumes "a1 < length (heap st)" "heap st ! a1 = Seq s1"
      and "a2 < length (heap st)" "heap st ! a2 = Seq s2"
  shows "\<exists>hs R P. calc_k self (Ref a1) (Ref a2) st =
           (Inr (R ! length s2),
            \<lparr>heap = tables (heap st) (length s1) R P, trace = trace st @ hs\<rparr>)
         \<and> (R, P) = row_steps s1 s2 (replicate (length s2 + 1) 1, replicate (length s2 + 1) 0)
         \<and> (\<forall>h \<in> set hs. shared_row (heap st) (length s1) (length s2) h)
         \<and> hs \<noteq> []"
proof -
  obtain h0 tr where st: "st = \<lparr>heap = h0, trace = tr\<rparr>" by (cases st) simp
  let ?n = "length s1" let ?m = "length s2"
  let ?R0 = "replicate (?m + 1) (1::real)" let ?P0 = "replicate (?m + 1) (0::real)"
  let ?t1 = "h0 @ [Floats ?R0, Refs (replicate (?n + 1) (length h0))]"
  let ?t2 = "tables h0 ?n ?R0 ?P0"
  have a: "a1 < length h0" "h0 ! a1 = Seq s1" "a2 < length h0" "h0 ! a2 = Seq s2"
    using assms st by simp_all
  obtain hs R P where o: "outer (Ref a1) (Ref a2) (Suc (length h0)) (Suc (Suc (length h0))) ?m [1..<?n + 1]
           \<lparr>heap = ?t2, trace = tr @ [?t1, ?t2]\<rparr> =
         (Inr (), \<lparr>heap = tables h0 ?n R P, trace = (tr @ [?t1, ?t2]) @ hs\<rparr>)"
     and r: "(R, P) = row_steps (drop (1 - 1) s1) s2 (?R0, ?P0)"
     and h: "\<forall>h \<in> set hs. shared_row h0 ?n ?m h"
    using outer_ok[OF a refl, of ?R0 ?P0 1 "tr @ [?t1, ?t2]"] by auto
  have "R = fst (row_steps s1 s2 (?R0, ?P0))" using r by (metis fst_conv diff_self_eq_0 drop0)
  then have lenR: "length R = ?m + 1" by (simp add: row_steps_length del: replicate_Suc)
  have s1: "shared_row h0 ?n ?m ?t1" by (auto simp: shared_row_def)
  have s2: "shared_row h0 ?n ?m ?t2" by (simp add: shared_row_tables)
  have fold: "\<And>R P. h0 @ [Floats R, Refs (replicate (?n + 1) (length h0)), Floats P] = tables h0 ?n R P"
    by (simp add: tables_def)
  have "calc_k self (Ref a1) (Ref a2) st =
      (Inr (R ! ?m), \<lparr>heap = tables h0 ?n R P, trace = (tr @ [?t1, ?t2]) @ hs\<rparr>)"
    using lenR
    apply (simp add: calc_k_def st len_def a new_obj_def tick_def Let_def fold
        del: upt_Suc replicate_Suc One_nat_def)
    apply (simp add: o get_dp get_row del: upt_Suc replicate_Suc One_nat_def)
    done
  then show ?thesis using r h s1 s2 st
    by (intro exI[of _ "[?t1, ?t2] @ hs"] exI[of _ R] exI[of _ P]) auto
qed

section \<open>The value of the row\<close>

subsection \<open>One pass\<close>

lemma msum_0 [simp]: "msum x ys R 0 = 0"
  by (simp add: msum_def)

lemma msum_Suc: "msum x ys R (Suc k) = msum x ys R k + (if ys ! k = x then R ! k else 0)"
  by (simp add: msum_def)

lemma row_fill_old: "\<forall>k \<in> set ks. j < k \<Longrightarrow> row_fill x ys R ks lst P ! j = P ! j"
  by (induction ks arbitrary: lst P) (auto simp: Let_def)

lemma row_fill_upt:
  assumes "length P = m + 1" "lst < a" "a \<le> m + 1"
      and "P ! lst = msum x ys R (a - 1)" "\<forall>k<a. P ! k = msum x ys R k"
  shows "\<forall>k\<le>m. row_fill x ys R [a..<m + 1] lst P ! k = msum x ys R k"
  using assms
proof (induction "m + 1 - a" arbitrary: a lst P)
  case 0
  then show ?case by simp
next
  case (Suc d)
  then have a: "a < m + 1" "0 < a" by auto
  have up: "[a..<m + 1] = a # [Suc a..<m + 1]" using a by (simp add: upt_conv_Cons)
  have sa: "msum x ys R a = msum x ys R (a - 1) + (if ys ! (a - 1) = x then R ! (a - 1) else 0)"
    using a msum_Suc[of x ys R "a - 1"] by simp
  let ?P1 = "P[a := P ! lst]"
  show ?case
  proof (cases "ys ! (a - 1) = x")
    case True
    let ?P2 = "?P1[a := ?P1 ! lst + R ! (a - 1)]"
    have "\<forall>k\<le>m. row_fill x ys R [Suc a..<m + 1] a ?P2 ! k = msum x ys R k"
    proof (rule Suc.hyps(1))
      show "d = m + 1 - Suc a" using Suc.hyps(2) by simp
      show "length ?P2 = m + 1" using Suc.prems by simp
      show "a < Suc a" by simp
      show "Suc a \<le> m + 1" using a by simp
      show "?P2 ! a = msum x ys R (Suc a - 1)" using Suc.prems a True sa by simp
      show "\<forall>k<Suc a. ?P2 ! k = msum x ys R k" using Suc.prems a True sa
        by (auto simp: less_Suc_eq nth_list_update)
    qed
    then show ?thesis unfolding up using True by (simp add: Let_def del: upt_Suc)
  next
    case False
    have "\<forall>k\<le>m. row_fill x ys R [Suc a..<m + 1] lst ?P1 ! k = msum x ys R k"
    proof (rule Suc.hyps(1))
      show "d = m + 1 - Suc a" using Suc.hyps(2) by simp
      show "length ?P1 = m + 1" using Suc.prems by simp
      show "lst < Suc a" using Suc.prems by simp
      show "Suc a \<le> m + 1" using a by simp
      show "?P1 ! lst = msum x ys R (Suc a - 1)" using Suc.prems a False sa by simp
      show "\<forall>k<Suc a. ?P1 ! k = msum x ys R k" using Suc.prems a False sa
        by (auto simp: less_Suc_eq nth_list_update)
    qed
    then show ?thesis unfolding up using False by (simp add: Let_def del: upt_Suc)
  qed
qed

lemma row_add_nth:
  "distinct ks \<Longrightarrow> \<forall>k \<in> set ks. k < length R \<Longrightarrow> j < length R \<Longrightarrow>
   row_add ks P R ! j = (if j \<in> set ks then R ! j + P ! j else R ! j)"
  by (induction ks arbitrary: R) (auto simp: nth_list_update)

lemma row_add_0: "0 \<notin> set ks \<Longrightarrow> row_add ks P R ! 0 = R ! 0"
  by (induction ks arbitrary: R) auto

lemma row_step_nth:
  assumes "length R = length ys + 1" "length P = length ys + 1" "k \<le> length ys"
  shows "fst (row_step x ys (R, P)) ! k = R ! k + msum x ys R k"
proof -
  let ?m = "length ys"
  let ?P1 = "row_fill x ys R [1..<?m + 1] 0 (P[0 := 0])"
  have p: "\<forall>k\<le>?m. ?P1 ! k = msum x ys R k"
    by (rule row_fill_upt) (use assms in auto)
  have "row_add [1..<?m + 1] ?P1 R ! k = (if k \<in> set [1..<?m + 1] then R ! k + ?P1 ! k else R ! k)"
    by (rule row_add_nth) (use assms in \<open>auto simp del: upt_Suc\<close>)
  then show ?thesis using p assms(3)
    by (cases "k = 0") (auto simp: row_step_def Let_def simp del: upt_Suc row_fill.simps)
qed

subsection \<open>All passes\<close>

lemma pairs_Nil2 [simp]: "pairs u [] = 1"
  by (cases u) simp_all


lemma pairs_Cons_take:
  "k \<le> length ys \<Longrightarrow>
   pairs (x # u) (rev (take k ys)) =
   pairs u (rev (take k ys)) + (\<Sum>j<k. if ys ! j = x then pairs u (rev (take j ys)) else 0)"
proof (induction k)
  case 0
  then show ?case by simp
next
  case (Suc k)
  then have t: "rev (take (Suc k) ys) = ys ! k # rev (take k ys)"
    by (simp add: take_Suc_conv_app_nth)
  show ?case using Suc unfolding t by auto
qed

lemma row_steps_pairs:
  assumes "length R = length ys + 1" "length P = length ys + 1"
      and "\<forall>k\<le>length ys. R ! k = pairs u (rev (take k ys))"
  shows "\<forall>k\<le>length ys. fst (row_steps xs ys (R, P)) ! k = pairs (rev xs @ u) (rev (take k ys))"
  using assms
proof (induction xs arbitrary: R P u)
  case Nil
  then show ?case by simp
next
  case (Cons x xs)
  obtain R' P' where rp: "row_step x ys (R, P) = (R', P')" by (cases "row_step x ys (R, P)")
  have len: "length R' = length ys + 1" "length P' = length ys + 1"
    using row_step_length[of x ys "(R, P)"] rp Cons.prems by simp_all
  have "\<forall>k\<le>length ys. R' ! k = pairs (x # u) (rev (take k ys))"
  proof (intro allI impI)
    fix k assume k: "k \<le> length ys"
    have "R' ! k = R ! k + msum x ys R k"
      using row_step_nth[OF Cons.prems(1,2) k, of x] rp by simp
    also have "msum x ys R k = (\<Sum>j<k. if ys ! j = x then pairs u (rev (take j ys)) else 0)"
      unfolding msum_def using Cons.prems(3) k by (intro sum.cong) auto
    finally show "R' ! k = pairs (x # u) (rev (take k ys))"
      using Cons.prems(3) k by (simp add: pairs_Cons_take)
  qed
  from Cons.IH[OF len this] show ?case by (simp add: rp)
qed

lemma row_steps_result:
  "fst (row_steps s1 s2 (replicate (length s2 + 1) 1, replicate (length s2 + 1) 0)) ! length s2
   = pairs (rev s1) (rev s2)"
  using row_steps_pairs[of "replicate (length s2 + 1) 1" s2 "replicate (length s2 + 1) 0" "[]" s1]
  by (simp add: nth_Cons split: nat.split)

subsection \<open>The grid of the specification\<close>

lemma ref_fill_p_row:
  "ref_fill_p s1 s2 dp i ks lst p = row_fill (s1 ! (i - 1)) s2 (dp ! (i - 1)) ks lst p"
  by (induction ks arbitrary: lst p) (simp_all add: Let_def)

lemma ref_add_p_length [simp]: "length (ref_add_p dp i ks p) = length dp"
  by (induction ks arbitrary: dp) simp_all

lemma ref_add_p_other: "j \<noteq> i \<Longrightarrow> ref_add_p dp i ks p ! j = dp ! j"
  by (induction ks arbitrary: dp) simp_all

lemma ref_add_p_row_length:
  "i < length dp \<Longrightarrow> length (ref_add_p dp i ks p ! i) = length (dp ! i)"
  by (induction ks arbitrary: dp) simp_all

lemma ref_add_p_nth:
  "0 < i \<Longrightarrow> i < length dp \<Longrightarrow> j < length (dp ! i) \<Longrightarrow>
   ref_add_p dp i ks p ! i ! j = (if j \<in> set ks then dp ! (i - 1) ! j + p ! j else dp ! i ! j)"
  by (induction ks arbitrary: dp) (auto simp: nth_list_update)

lemma ref_outer_rows:
  assumes "n = length s1" "m = length s2"
      and "length dp = n + 1" "1 \<le> i" "i \<le> n + 1"
      and "length (dp ! (i - 1)) = m + 1" "dp ! (i - 1) ! 0 = 1" "length P = m + 1"
      and "\<forall>j. i \<le> j \<and> j \<le> n \<longrightarrow> dp ! j = replicate (m + 1) 1"
  shows "ref_outer s1 s2 m [i..<n + 1] dp P ! n = fst (row_steps (drop (i - 1) s1) s2 (dp ! (i - 1), P))"
  using assms(3-9)
proof (induction "n + 1 - i" arbitrary: i dp P)
  case 0
  then have "i = n + 1" by simp
  then show ?case using assms(1) by simp
next
  case (Suc d)
  then have i: "0 < i" "i \<le> n" "i < length dp" by auto
  let ?x = "s1 ! (i - 1)"
  let ?R = "dp ! (i - 1)"
  let ?p1 = "row_fill ?x s2 ?R [1..<m + 1] 0 (P[0 := 0])"
  let ?dp = "ref_add_p dp i [1..<m + 1] ?p1"
  let ?R' = "row_add [1..<m + 1] ?p1 ?R"
  have up: "[i..<n + 1] = i # [Suc i..<n + 1]" using i by (simp add: upt_conv_Cons)
  have dr: "drop (i - 1) s1 = ?x # drop i s1"
    using i assms(1) Cons_nth_drop_Suc[of "i - 1" s1] by simp
  have ones: "dp ! i = replicate (m + 1) 1" using Suc.prems i by simp
  have row: "?dp ! i = ?R'"
  proof (rule nth_equalityI)
    show "length (?dp ! i) = length ?R'"
      using i ones Suc.prems by (simp add: ref_add_p_row_length del: replicate_Suc upt_Suc)
  next
    fix j assume "j < length (?dp ! i)"
    then have j: "j < m + 1" using i ones by (simp add: ref_add_p_row_length del: replicate_Suc upt_Suc)
    have a: "?dp ! i ! j = (if j \<in> set [1..<m + 1] then ?R ! j + ?p1 ! j else dp ! i ! j)"
      using i j ones by (intro ref_add_p_nth) (simp_all del: replicate_Suc upt_Suc)
    have b: "?R' ! j = (if j \<in> set [1..<m + 1] then ?R ! j + ?p1 ! j else ?R ! j)"
      using j Suc.prems by (intro row_add_nth) (auto simp del: upt_Suc)
    show "?dp ! i ! j = ?R' ! j"
    proof (cases "j = 0")
      case True
      then show ?thesis using a b ones Suc.prems by (simp del: replicate_Suc upt_Suc)
    next
      case False
      then show ?thesis using a b j by (simp del: replicate_Suc upt_Suc)
    qed
  qed
  have step: "row_step ?x s2 (?R, P) = (?R', ?p1)"
    using assms(2) by (simp add: row_step_def Let_def del: upt_Suc)
  have rec: "ref_outer s1 s2 m [Suc i..<n + 1] ?dp ?p1 ! n =
        fst (row_steps (drop (Suc i - 1) s1) s2 (?dp ! (Suc i - 1), ?p1))"
  proof (rule Suc.hyps(1))
    show "d = n + 1 - Suc i" using Suc.hyps(2) by simp
    show "length ?dp = n + 1" using Suc.prems by simp
    show "1 \<le> Suc i" by simp
    show "Suc i \<le> n + 1" using i by simp
    show "length (?dp ! (Suc i - 1)) = m + 1"
      using row Suc.prems by (simp del: upt_Suc row_fill.simps)
    show "?dp ! (Suc i - 1) ! 0 = 1"
      using row Suc.prems by (simp add: row_add_0 del: upt_Suc row_fill.simps)
    show "length ?p1 = m + 1" using Suc.prems by (simp del: upt_Suc row_fill.simps)
    show "\<forall>j. Suc i \<le> j \<and> j \<le> n \<longrightarrow> ?dp ! j = replicate (m + 1) 1"
      using Suc.prems by (auto simp: ref_add_p_other simp del: upt_Suc replicate_Suc)
  qed
  have l: "ref_outer s1 s2 m [i..<n + 1] dp P = ref_outer s1 s2 m [Suc i..<n + 1] ?dp ?p1"
    unfolding up ref_outer.simps Let_def ref_fill_p_row ..
  have r: "row_steps (drop (i - 1) s1) s2 (?R, P) = row_steps (drop i s1) s2 (?R', ?p1)"
    unfolding dr row_steps.simps step ..
  show ?case unfolding l r using rec row by simp
qed

lemma ref_grid_last:
  "ref_grid s1 s2 ! length s1 =
   fst (row_steps s1 s2 (replicate (length s2 + 1) 1, replicate (length s2 + 1) 0))"
proof -
  let ?n = "length s1" let ?m = "length s2"
  let ?dp = "replicate (?n + 1) (replicate (?m + 1) (1::real))"
  have "ref_outer s1 s2 ?m [1..<?n + 1] ?dp (replicate (?m + 1) 0) ! ?n =
        fst (row_steps (drop (1 - 1) s1) s2 (?dp ! (1 - 1), replicate (?m + 1) 0))"
    by (rule ref_outer_rows) (auto simp: nth_Cons split: nat.split)
  then show ?thesis by (simp add: ref_grid_def del: upt_Suc)
qed

lemma ref_similarity_rows:
  "ref_similarity s1 s2 =
   fst (row_steps s1 s2 (replicate (length s2 + 1) 1, replicate (length s2 + 1) 0)) ! length s2"
  by (simp only: ref_similarity_def ref_grid_last)

section \<open>The value as a sum over words\<close>

text \<open>
  \<open>pairs u v\<close> is the sum over all words \<open>w\<close> of \<open>occ w u * occ w v\<close>: an inner product. The
  Cauchy-Schwarz inequality bounds it by the two self-values.
\<close>

lemma count_map_Cons:
  "count_list (map ((#) x) S) w = (case w of [] \<Rightarrow> 0 | a # w' \<Rightarrow> if a = x then count_list S w' else 0)"
  by (induction S) (auto split: list.splits)

lemma count_subseqs: "count_list (subseqs u) w = occ w u"
proof (induction u arbitrary: w)
  case Nil
  then show ?case by (cases w) simp_all
next
  case (Cons x u)
  then show ?case by (cases w) (simp_all add: Let_def count_map_Cons)
qed

lemma words_Nil [simp]: "words [] v = 1"
  by (simp add: words_def)

lemma words_Cons:
  "words (x # u) v = (\<Sum>w\<leftarrow>subseqs u. occ (x # w) v) + words u v"
  by (simp add: words_def Let_def comp_def)

lemma words_Nil2 [simp]: "words u [] = 1"
  by (induction u) (simp_all add: words_Cons)

lemma occ_sum_Cons:
  "(\<Sum>w\<leftarrow>S. occ (x # w) (y # v)) = (\<Sum>w\<leftarrow>S. occ (x # w) v) + (if x = y then (\<Sum>w\<leftarrow>S. occ w v) else 0)"
  by (induction S) simp_all

lemma words_rec:
  "words (x # u) (y # v) + (if x = y then 0 else words u v) = words u (y # v) + words (x # u) v"
proof -
  have a: "words (x # u) (y # v) =
      (\<Sum>w\<leftarrow>subseqs u. occ (x # w) v) + (if x = y then words u v else 0) + words u (y # v)"
    unfolding words_Cons occ_sum_Cons by (simp add: words_def)
  have b: "words (x # u) v = (\<Sum>w\<leftarrow>subseqs u. occ (x # w) v) + words u v"
    by (rule words_Cons)
  show ?thesis unfolding a b by simp
qed

lemma pairs_words: "pairs u v = real (words u v)"
proof (induction u v rule: pairs.induct)
  case (3 x u y v)
  have "real (words (x # u) (y # v) + (if x = y then 0 else words u v))
        = real (words u (y # v) + words (x # u) v)"
    by (simp only: words_rec)
  then have "real (words (x # u) (y # v)) =
      real (words u (y # v)) + real (words (x # u) v) - (if x = y then 0 else real (words u v))"
    by (simp split: if_splits)
  then show ?case using 3 by simp
qed simp_all

lemma words_sum:
  assumes "finite W" "set (subseqs u) \<subseteq> W"
  shows "words u v = (\<Sum>w\<in>W. occ w u * occ w v)"
  unfolding words_def
  using sum_list_map_eq_sum_count2[OF assms(2,1), of "\<lambda>w. occ w v"]
  by (simp add: count_subseqs)


lemma cauchy_schwarz_sum:
  fixes a b :: "'i \<Rightarrow> real"
  shows "(\<Sum>i\<in>W. a i * b i)\<^sup>2 \<le> (\<Sum>i\<in>W. (a i)\<^sup>2) * (\<Sum>i\<in>W. (b i)\<^sup>2)"
proof -
  let ?A = "\<Sum>i\<in>W. (a i)\<^sup>2" let ?B = "\<Sum>i\<in>W. (b i)\<^sup>2" let ?C = "\<Sum>i\<in>W. a i * b i"
  have pt: "(a i * b j - a j * b i)\<^sup>2 =
      (a i)\<^sup>2 * (b j)\<^sup>2 - 2 * ((a i * b i) * (a j * b j)) + (b i)\<^sup>2 * (a j)\<^sup>2" for i j
    by (simp add: power2_eq_square algebra_simps)
  have "0 \<le> (\<Sum>i\<in>W. \<Sum>j\<in>W. (a i * b j - a j * b i)\<^sup>2)"
    by (intro sum_nonneg) simp
  also have "\<dots> = (\<Sum>i\<in>W. \<Sum>j\<in>W. (a i)\<^sup>2 * (b j)\<^sup>2)
       - 2 * (\<Sum>i\<in>W. \<Sum>j\<in>W. (a i * b i) * (a j * b j))
       + (\<Sum>i\<in>W. \<Sum>j\<in>W. (b i)\<^sup>2 * (a j)\<^sup>2)"
    by (simp only: pt sum.distrib sum_subtractf sum_distrib_left)
  also have "(\<Sum>i\<in>W. \<Sum>j\<in>W. (a i)\<^sup>2 * (b j)\<^sup>2) = ?A * ?B"
    by (simp only: sum_product)
  also have "(\<Sum>i\<in>W. \<Sum>j\<in>W. (a i * b i) * (a j * b j)) = ?C * ?C"
    by (simp only: sum_product)
  also have "(\<Sum>i\<in>W. \<Sum>j\<in>W. (b i)\<^sup>2 * (a j)\<^sup>2) = ?B * ?A"
    by (simp only: sum_product)
  finally have "0 \<le> ?A * ?B - 2 * (?C * ?C) + ?B * ?A" .
  then show ?thesis by (simp add: power2_eq_square)
qed

lemma pairs_cauchy_schwarz: "(pairs u v)\<^sup>2 \<le> pairs u u * pairs v v"
proof -
  let ?W = "set (subseqs u) \<union> set (subseqs v)"
  have f: "finite ?W" by simp
  have uv: "words u v = (\<Sum>w\<in>?W. occ w u * occ w v)" by (rule words_sum[OF f]) simp
  have uu: "words u u = (\<Sum>w\<in>?W. occ w u * occ w u)" by (rule words_sum[OF f]) simp
  have vv: "words v v = (\<Sum>w\<in>?W. occ w v * occ w v)" by (rule words_sum[OF f]) simp
  show ?thesis
    unfolding pairs_words uv uu vv
    using cauchy_schwarz_sum[of "\<lambda>w. real (occ w u)" "\<lambda>w. real (occ w v)" ?W]
    by (simp add: power2_eq_square)
qed

lemma le_max_of_square:
  fixes x y z :: real
  assumes "0 \<le> x" "0 \<le> y" "0 \<le> z" "x\<^sup>2 \<le> y * z"
  shows "x \<le> max y z"
proof (rule ccontr)
  assume "\<not> x \<le> max y z"
  then have "y < x" "z < x" by simp_all
  then have "y * z < x * x" using assms(1-3) by (intro mult_strict_mono') simp_all
  then show False using assms(4) by (simp add: power2_eq_square)
qed

section \<open>The result of a call\<close>

text \<open>
  A call whose arguments denote the sequences \<open>s1\<close> and \<open>s2\<close> returns
  \<open>pairs (rev s1) (rev s2)\<close>; any other call raises a \<open>TypeError\<close> and leaves the state as
  it was.
\<close>

lemma seq_of_Some:
  "seq_of st v = Some xs \<longleftrightarrow> (\<exists>a. v = Ref a \<and> a < length (heap st) \<and> heap st ! a = Seq xs)"
  by (auto simp: seq_of_def split: arg.splits obj.splits if_splits)

lemma seq_of_None_len: "seq_of st v = None \<Longrightarrow> len v st = Inl TypeError"
  by (auto simp: seq_of_def len_def split: arg.splits obj.splits if_splits)

lemma len_Inl: "len v st = Inl e \<Longrightarrow> e = TypeError"
  by (auto simp: len_def split: arg.splits obj.splits if_splits)

lemma calc_k_value:
  assumes "seq_of st a1 = Some s1" "seq_of st a2 = Some s2"
  shows "fst (calc_k self a1 a2 st) = Inr (pairs (rev s1) (rev s2))"
proof -
  obtain b1 b2 where b: "a1 = Ref b1" "b1 < length (heap st)" "heap st ! b1 = Seq s1"
      "a2 = Ref b2" "b2 < length (heap st)" "heap st ! b2 = Seq s2"
    using assms unfolding seq_of_Some by blast
  from calc_k_ok[OF b(2,3,5,6), of self] obtain hs R P where
    "calc_k self (Ref b1) (Ref b2) st =
       (Inr (R ! length s2), \<lparr>heap = tables (heap st) (length s1) R P, trace = trace st @ hs\<rparr>)"
    "(R, P) = row_steps s1 s2 (replicate (length s2 + 1) 1, replicate (length s2 + 1) 0)"
    by blast
  then show ?thesis
    using row_steps_result[of s1 s2] b(1,4) by (metis fst_conv)
qed

lemma calc_k_error:
  assumes "seq_of st a1 = None \<or> seq_of st a2 = None"
  shows "calc_k self a1 a2 st = (Inl TypeError, st)"
proof (cases "len a1 st")
  case (Inl e)
  then show ?thesis using len_Inl[OF Inl] by (simp add: calc_k_def)
next
  case (Inr n)
  then have "seq_of st a1 \<noteq> None"
    using seq_of_None_len[of st a1] by auto
  then have "len a2 st = Inl TypeError" using assms by (auto simp: seq_of_None_len)
  then show ?thesis using Inr by (simp add: calc_k_def)
qed

lemma pairs_ge_1: "1 \<le> pairs u v"
proof (induction u arbitrary: v)
  case Nil
  then show ?case by simp
next
  case (Cons x u)
  have "pairs (x # u) (rev (take (length v) (rev v))) =
        pairs u (rev (take (length v) (rev v))) +
        (\<Sum>j<length v. if rev v ! j = x then pairs u (rev (take j (rev v))) else 0)"
    by (rule pairs_Cons_take) simp
  moreover have "0 \<le> (\<Sum>j<length v. if rev v ! j = x then pairs u (rev (take j (rev v))) else 0)"
    by (intro sum_nonneg) (use Cons.IH in \<open>auto intro: order_trans[of 0 1]\<close>)
  ultimately show ?case using Cons.IH[of v] by simp
qed

lemma calc_k_cases:
  fixes st :: "'a state"
  shows "calc_k self a1 a2 st = (Inl TypeError, st) \<or>
     (\<exists>s1 s2 hs R P. seq_of st a1 = Some s1 \<and> seq_of st a2 = Some s2 \<and>
        calc_k self a1 a2 st =
          (Inr (R ! length s2), \<lparr>heap = tables (heap st) (length s1) R P, trace = trace st @ hs\<rparr>))"
proof (cases "seq_of st a1 = None \<or> seq_of st a2 = None")
  case True
  then show ?thesis by (simp add: calc_k_error)
next
  case False
  then obtain s1 s2 where s: "seq_of st a1 = Some s1" "seq_of st a2 = Some s2" by auto
  then obtain b1 b2 where b: "a1 = Ref b1" "b1 < length (heap st)" "heap st ! b1 = Seq s1"
      "a2 = Ref b2" "b2 < length (heap st)" "heap st ! b2 = Seq s2"
    unfolding seq_of_Some by blast
  from calc_k_ok[OF b(2,3,5,6), of self] s b(1,4) show ?thesis by blast
qed

lemma calc_k_heap: "\<exists>R fs P. heap (snd (calc_k self a1 a2 st)) = heap st \<or>
   heap (snd (calc_k self a1 a2 st)) = heap st @ [Floats R, Refs fs, Floats P]"
  using calc_k_cases[of self a1 a2 st] by (auto simp: tables_def)

lemma seq_of_append:
  assumes "heap st' = heap st @ [Floats R, Refs fs, Floats P]"
  shows "seq_of st' a = seq_of st a"
proof (cases a)
  case (Ref b)
  consider "b < length (heap st)" | "b = length (heap st)" | "b = Suc (length (heap st))"
    | "b = Suc (Suc (length (heap st)))" | "b > Suc (Suc (length (heap st)))" by linarith
  then show ?thesis
    by cases (simp_all add: seq_of_def Ref assms nth_append)
qed (simp_all add: seq_of_def)

lemma seq_of_heap: "heap st' = heap st \<Longrightarrow> seq_of st' a = seq_of st a"
  unfolding seq_of_def by (auto split: arg.splits)

lemma seq_of_calc_k: "seq_of (snd (calc_k self a1 a2 st)) a = seq_of st a"
  using calc_k_heap[of self a1 a2 st] seq_of_append seq_of_heap by metis

lemma calc_k_depends:
  assumes "seq_of st a1 = seq_of st' b1" "seq_of st a2 = seq_of st' b2"
  shows "fst (calc_k self a1 a2 st) = fst (calc_k self' b1 b2 st')"
proof (cases "seq_of st a1 = None \<or> seq_of st a2 = None")
  case True
  then have "seq_of st' b1 = None \<or> seq_of st' b2 = None" using assms by simp
  then show ?thesis using True by (simp add: calc_k_error)
next
  case False
  then obtain s1 s2 where s: "seq_of st a1 = Some s1" "seq_of st a2 = Some s2" by auto
  then have "seq_of st' b1 = Some s1" "seq_of st' b2 = Some s2" using assms by simp_all
  then show ?thesis using s by (simp add: calc_k_value)
qed

subsection \<open>The shared row in the store\<close>

lemma shared_row_nth:
  assumes "h = h0 @ Floats R # Refs (replicate (n + 1) (length h0)) # rest"
  shows "length h0 < length h" "Suc (length h0) < length h"
    "h ! length h0 = Floats R" "h ! Suc (length h0) = Refs (replicate (n + 1) (length h0))"
    "h[length h0 := Floats R'] = h0 @ Floats R' # Refs (replicate (n + 1) (length h0)) # rest"
  by (simp_all add: assms nth_append list_update_append)

lemma replicate_nth_le: "i \<le> n \<Longrightarrow> replicate (n + 1) x ! i = x"
  by (simp add: nth_Cons split: nat.split)

lemma shared_row_cell:
  assumes "shared_row h0 n m h" "i \<le> n" "j \<le> n" "k \<le> m"
  shows "(\<exists>w. dp_cell h (Suc (length h0)) i k = Inr w)
       \<and> dp_cell h (Suc (length h0)) i k = dp_cell h (Suc (length h0)) j k
       \<and> (\<exists>h'. dp_assign h (Suc (length h0)) i k v = Inr h' \<and> dp_cell h' (Suc (length h0)) j k = Inr v)"
proof -
  obtain R rest where R: "length R = m + 1"
    and h: "h = h0 @ Floats R # Refs (replicate (n + 1) (length h0)) # rest"
    using assms(1) unfolding shared_row_def by blast
  note n = shared_row_nth[OF h]
  have ref: "get_ref (Suc (length h0)) l \<lparr>heap = h, trace = []\<rparr> = Inr (length h0)" if "l \<le> n" for l
    using that n(2,4) by (simp add: get_ref_def replicate_nth_le del: replicate_Suc)
  have cell: "dp_cell h (Suc (length h0)) l k = Inr (R ! k)" if "l \<le> n" for l
    using ref[OF that] n(1,3) R assms(4) by (simp add: dp_cell_def get_float_def)
  let ?h' = "h0 @ Floats (R[k := v]) # Refs (replicate (n + 1) (length h0)) # rest"
  have asg: "dp_assign h (Suc (length h0)) i k v = Inr ?h'"
    using ref[OF assms(2)] n(1,3,5) R assms(4)
    by (simp add: dp_assign_def set_float_def tick_def del: replicate_Suc)
  note n' = shared_row_nth[OF refl, of h0 "R[k := v]" n rest]
  have "get_ref (Suc (length h0)) j \<lparr>heap = ?h', trace = []\<rparr> = Inr (length h0)"
    using assms(3) n'(2,4) by (simp add: get_ref_def replicate_nth_le del: replicate_Suc)
  then have "dp_cell ?h' (Suc (length h0)) j k = Inr v"
    using n'(1,3) R assms(4) by (simp add: dp_cell_def get_float_def del: replicate_Suc)
  then show ?thesis using cell[OF assms(2)] cell[OF assms(3)] asg by simp
qed

lemma tables_cell:
  assumes "length R = m + 1" "j \<le> n" "k \<le> m"
  shows "dp_cell (tables h0 n R P) (Suc (length h0)) j k = Inr (R ! k)"
  using assms by (simp add: dp_cell_def get_dp get_row)

subsection \<open>One run, step by step\<close>

text \<open>The call on \<open>a\<close> and \<open>a\<close>, with the store after each statement.\<close>

lemma run_a:
  "calc_k (Ref 0) (Ref 1) (Ref 1) \<lparr>heap = [Kernel 1 1 ''sk'', Seq ''a''], trace = []\<rparr> =
   (Inr 2,
    \<lparr>heap = [Kernel 1 1 ''sk'', Seq ''a'', Floats [1, 2], Refs [2, 2], Floats [0, 1]],
     trace =
       [[Kernel 1 1 ''sk'', Seq ''a'', Floats [1, 1], Refs [2, 2]],
        [Kernel 1 1 ''sk'', Seq ''a'', Floats [1, 1], Refs [2, 2], Floats [0, 0]],
        [Kernel 1 1 ''sk'', Seq ''a'', Floats [1, 1], Refs [2, 2], Floats [0, 0]],
        [Kernel 1 1 ''sk'', Seq ''a'', Floats [1, 1], Refs [2, 2], Floats [0, 0]],
        [Kernel 1 1 ''sk'', Seq ''a'', Floats [1, 1], Refs [2, 2], Floats [0, 1]],
        [Kernel 1 1 ''sk'', Seq ''a'', Floats [1, 2], Refs [2, 2], Floats [0, 1]]]\<rparr>)"
  by (simp add: calc_k_def len_def new_obj_def tick_def outer_step_def fill_p_step_def
      add_p_step_def get_float_def get_ref_def get_sym_def set_float_def)

lemma grid_a: "ref_grid ''a'' ''a'' = [[1, 1], [1, 2]]"
  by (simp add: ref_grid_def)

section \<open>The claims\<close>

text \<open>
  C1. For sequences \<open>s1\<close> of length \<open>n\<close> and \<open>s2\<close> of length \<open>m\<close>, \<open>calc_k\<close> returns the
  cell \<open>dp[n][m]\<close> of the reference recurrence of section 4 of the specification, computed
  on a grid of independent rows. The method runs on one shared row; it returns the same
  number, because within iteration \<open>i\<close> it reads column \<open>k\<close> of the row before it writes it.
\<close>

theorem calc_k_reference:
  assumes "seq_of st a1 = Some s1" "seq_of st a2 = Some s2"
  shows "fst (calc_k self a1 a2 st) = Inr (ref_similarity s1 s2)"
  unfolding ref_similarity_rows row_steps_result by (rule calc_k_value[OF assms])

theorem calc_k_reference_witness:
  "seq_of \<lparr>heap = [Kernel 1 1 ''sk'', Seq ''cat'', Seq ''car''], trace = []\<rparr> (Ref 1) = Some ''cat''
   \<and> seq_of \<lparr>heap = [Kernel 1 1 ''sk'', Seq ''cat'', Seq ''car''], trace = []\<rparr> (Ref 2) = Some ''car''
   \<and> fst (calc_k (Ref 0) (Ref 1) (Ref 2) \<lparr>heap = [Kernel 1 1 ''sk'', Seq ''cat'', Seq ''car''], trace = []\<rparr>)
       = Inr (ref_similarity ''cat'' ''car'')"
  using calc_k_reference[of "\<lparr>heap = [Kernel 1 1 ''sk'', Seq ''cat'', Seq ''car''], trace = []\<rparr>"
      "Ref 1" "''cat''" "Ref 2" "''car''" "Ref 0"]
  by (simp add: seq_of_def)

text \<open>
  C2, as amended. For the empty sequence and any sequence \<open>s\<close>, in either order, \<open>calc_k\<close>
  returns 1 (not 0): row 0 and column 0 of the table hold the base value 1.0, the count of
  the empty common subsequence.
\<close>

theorem calc_k_empty:
  assumes "seq_of st a1 = Some []" "seq_of st a2 = Some s"
  shows "fst (calc_k self a1 a2 st) = Inr 1 \<and> fst (calc_k self a2 a1 st) = Inr 1"
  using calc_k_value[OF assms] calc_k_value[OF assms(2,1)] by simp

theorem calc_k_empty_witness:
  "seq_of \<lparr>heap = [Kernel 1 1 ''sk'', Seq '''', Seq ''ab''], trace = []\<rparr> (Ref 1) = Some ''''
   \<and> seq_of \<lparr>heap = [Kernel 1 1 ''sk'', Seq '''', Seq ''ab''], trace = []\<rparr> (Ref 2) = Some ''ab''
   \<and> fst (calc_k (Ref 0) (Ref 1) (Ref 2) \<lparr>heap = [Kernel 1 1 ''sk'', Seq '''', Seq ''ab''], trace = []\<rparr>) = Inr 1
   \<and> fst (calc_k (Ref 0) (Ref 2) (Ref 1) \<lparr>heap = [Kernel 1 1 ''sk'', Seq '''', Seq ''ab''], trace = []\<rparr>) = Inr 1"
  using calc_k_empty[of "\<lparr>heap = [Kernel 1 1 ''sk'', Seq '''', Seq ''ab''], trace = []\<rparr>" "Ref 1" "Ref 2" "''ab''" "Ref 0"]
  by (simp add: seq_of_def)

text \<open>C2 as stated fails: with the empty sequence and \<open>ab\<close> the method returns 1.\<close>

theorem calc_k_empty_counterexample:
  "fst (calc_k (Ref 0) (Ref 1) (Ref 2) \<lparr>heap = [Kernel 1 1 ''sk'', Seq '''', Seq ''ab''], trace = []\<rparr>) \<noteq> Inr 0
   \<and> fst (calc_k (Ref 0) (Ref 2) (Ref 1) \<lparr>heap = [Kernel 1 1 ''sk'', Seq '''', Seq ''ab''], trace = []\<rparr>) \<noteq> Inr 0"
  using calc_k_value[of "\<lparr>heap = [Kernel 1 1 ''sk'', Seq '''', Seq ''ab''], trace = []\<rparr>" "Ref 1" "''''" "Ref 2" "''ab''" "Ref 0"]
    calc_k_value[of "\<lparr>heap = [Kernel 1 1 ''sk'', Seq '''', Seq ''ab''], trace = []\<rparr>" "Ref 2" "''ab''" "Ref 1" "''''" "Ref 0"]
  by (simp add: seq_of_def)



text \<open>
  C5, as amended. For all sequences \<open>s\<close> and \<open>t\<close> the square of \<open>calc_k(s, t)\<close> is at most
  \<open>calc_k(s, s) * calc_k(t, t)\<close>; so a cross-sequence score never exceeds the larger of the
  two self-scores: \<open>calc_k(s, t) \<le> max(calc_k(s, s), calc_k(t, t))\<close>.
\<close>

theorem calc_k_cross_bound:
  assumes "seq_of st a1 = Some s" "seq_of st a2 = Some t"
  shows "\<exists>x y z. fst (calc_k self a1 a2 st) = Inr x
           \<and> fst (calc_k self a1 a1 st) = Inr y
           \<and> fst (calc_k self a2 a2 st) = Inr z
           \<and> x\<^sup>2 \<le> y * z \<and> x \<le> max y z"
proof -
  let ?x = "pairs (rev s) (rev t)" let ?y = "pairs (rev s) (rev s)" let ?z = "pairs (rev t) (rev t)"
  have cs: "?x\<^sup>2 \<le> ?y * ?z" by (rule pairs_cauchy_schwarz)
  have pos: "0 \<le> ?x" "0 \<le> ?y" "0 \<le> ?z"
    using pairs_ge_1[of "rev s" "rev t"] pairs_ge_1[of "rev s" "rev s"] pairs_ge_1[of "rev t" "rev t"]
    by simp_all
  have "?x \<le> max ?y ?z" using pos cs by (rule le_max_of_square)
  then show ?thesis
    using cs calc_k_value[OF assms, of self] calc_k_value[OF assms(1,1), of self]
      calc_k_value[OF assms(2,2), of self]
    by blast
qed

theorem calc_k_cross_bound_witness:
  "seq_of \<lparr>heap = [Kernel 1 1 ''sk'', Seq ''a'', Seq ''aa''], trace = []\<rparr> (Ref 1) = Some ''a''
   \<and> seq_of \<lparr>heap = [Kernel 1 1 ''sk'', Seq ''a'', Seq ''aa''], trace = []\<rparr> (Ref 2) = Some ''aa''
   \<and> (\<exists>x y z. fst (calc_k (Ref 0) (Ref 1) (Ref 2) \<lparr>heap = [Kernel 1 1 ''sk'', Seq ''a'', Seq ''aa''], trace = []\<rparr>) = Inr x
           \<and> fst (calc_k (Ref 0) (Ref 1) (Ref 1) \<lparr>heap = [Kernel 1 1 ''sk'', Seq ''a'', Seq ''aa''], trace = []\<rparr>) = Inr y
           \<and> fst (calc_k (Ref 0) (Ref 2) (Ref 2) \<lparr>heap = [Kernel 1 1 ''sk'', Seq ''a'', Seq ''aa''], trace = []\<rparr>) = Inr z
           \<and> x\<^sup>2 \<le> y * z \<and> x \<le> max y z)"
  using calc_k_cross_bound[of "\<lparr>heap = [Kernel 1 1 ''sk'', Seq ''a'', Seq ''aa''], trace = []\<rparr>" "Ref 1" "''a''" "Ref 2" "''aa''" "Ref 0"]
  by (simp add: seq_of_def)

text \<open>
  C5 as stated fails: \<open>calc_k("a", "a")\<close> is 2 and \<open>calc_k("a", "aa")\<close> is 3.
\<close>

theorem calc_k_self_max_counterexample:
  "fst (calc_k (Ref 0) (Ref 1) (Ref 1) \<lparr>heap = [Kernel 1 1 ''sk'', Seq ''a'', Seq ''aa''], trace = []\<rparr>) = Inr 2
   \<and> fst (calc_k (Ref 0) (Ref 1) (Ref 2) \<lparr>heap = [Kernel 1 1 ''sk'', Seq ''a'', Seq ''aa''], trace = []\<rparr>) = Inr 3
   \<and> \<not> ((2::real) \<ge> 3)"
  using calc_k_value[of "\<lparr>heap = [Kernel 1 1 ''sk'', Seq ''a'', Seq ''aa''], trace = []\<rparr>" "Ref 1" "''a''" "Ref 1" "''a''" "Ref 0"]
    calc_k_value[of "\<lparr>heap = [Kernel 1 1 ''sk'', Seq ''a'', Seq ''aa''], trace = []\<rparr>" "Ref 1" "''a''" "Ref 2" "''aa''" "Ref 0"]
  by (simp add: seq_of_def)

text \<open>
  C6. \<open>calc_k("aaa", "aaa")\<close> is 20 and \<open>calc_k("aaa", "aab")\<close> is 10, so the first is
  strictly greater.
\<close>

theorem calc_k_aaa:
  "fst (calc_k (Ref 0) (Ref 1) (Ref 1) \<lparr>heap = [Kernel 1 1 ''sk'', Seq ''aaa'', Seq ''aab''], trace = []\<rparr>) = Inr 20
   \<and> fst (calc_k (Ref 0) (Ref 1) (Ref 2) \<lparr>heap = [Kernel 1 1 ''sk'', Seq ''aaa'', Seq ''aab''], trace = []\<rparr>) = Inr 10
   \<and> (10::real) < 20"
  using calc_k_value[of "\<lparr>heap = [Kernel 1 1 ''sk'', Seq ''aaa'', Seq ''aab''], trace = []\<rparr>"
      "Ref 1" "''aaa''" "Ref 1" "''aaa''" "Ref 0"]
    calc_k_value[of "\<lparr>heap = [Kernel 1 1 ''sk'', Seq ''aaa'', Seq ''aab''], trace = []\<rparr>"
      "Ref 1" "''aaa''" "Ref 2" "''aab''" "Ref 0"]
  by (simp add: seq_of_def)

text \<open>
  C7. For every pair of sequences the value \<open>calc_k\<close> returns is a non-negative number.
\<close>

theorem calc_k_nonneg:
  assumes "seq_of st a1 = Some s1" "seq_of st a2 = Some s2"
  shows "\<exists>v. fst (calc_k self a1 a2 st) = Inr v \<and> 0 \<le> v"
  using calc_k_value[OF assms, of self] pairs_ge_1[of "rev s1" "rev s2"] by auto

theorem calc_k_nonneg_witness:
  "seq_of \<lparr>heap = [Kernel 1 1 ''sk'', Seq ''cat'', Seq ''car''], trace = []\<rparr> (Ref 1) = Some ''cat''
   \<and> seq_of \<lparr>heap = [Kernel 1 1 ''sk'', Seq ''cat'', Seq ''car''], trace = []\<rparr> (Ref 2) = Some ''car''
   \<and> (\<exists>v. fst (calc_k (Ref 0) (Ref 1) (Ref 2) \<lparr>heap = [Kernel 1 1 ''sk'', Seq ''cat'', Seq ''car''], trace = []\<rparr>) = Inr v \<and> 0 \<le> v)"
  using calc_k_nonneg[of "\<lparr>heap = [Kernel 1 1 ''sk'', Seq ''cat'', Seq ''car''], trace = []\<rparr>" "Ref 1" "''cat''" "Ref 2" "''car''" "Ref 0"]
  by (simp add: seq_of_def)

text \<open>
  C4, as amended. A call with \<open>None\<close> for a sequence, or with a sequence left out, fails
  with Python's own \<open>TypeError\<close> (from \<open>len\<close>, or from the call itself) before the method
  touches the store; a call whose two arguments are sequences raises no error.
\<close>

theorem calc_k_errors:
  "((a1 = PyNone \<or> a1 = Absent \<or> a2 = PyNone \<or> a2 = Absent) \<longrightarrow>
      calc_k self a1 a2 st = (Inl TypeError, st))
   \<and> (seq_of st a1 = Some s1 \<and> seq_of st a2 = Some s2 \<longrightarrow>
      (\<exists>v. fst (calc_k self a1 a2 st) = Inr v))"
proof (intro conjI impI)
  assume "a1 = PyNone \<or> a1 = Absent \<or> a2 = PyNone \<or> a2 = Absent"
  then have "seq_of st a1 = None \<or> seq_of st a2 = None" by (auto simp: seq_of_def)
  then show "calc_k self a1 a2 st = (Inl TypeError, st)" by (rule calc_k_error)
next
  assume "seq_of st a1 = Some s1 \<and> seq_of st a2 = Some s2"
  then show "\<exists>v. fst (calc_k self a1 a2 st) = Inr v" by (auto simp: calc_k_value)
qed

theorem calc_k_errors_witness:
  "calc_k (Ref 0) PyNone (Ref 1) \<lparr>heap = [Kernel 1 1 ''sk'', Seq ''abc''], trace = []\<rparr>
     = (Inl TypeError, \<lparr>heap = [Kernel 1 1 ''sk'', Seq ''abc''], trace = []\<rparr>)
   \<and> seq_of \<lparr>heap = [Kernel 1 1 ''sk'', Seq ''abc''], trace = []\<rparr> (Ref 1) = Some ''abc''
   \<and> (\<exists>v. fst (calc_k (Ref 0) (Ref 1) (Ref 1) \<lparr>heap = [Kernel 1 1 ''sk'', Seq ''abc''], trace = []\<rparr>) = Inr v)"
  using calc_k_errors[of PyNone "Ref 1" "Ref 0" "\<lparr>heap = [Kernel 1 1 ''sk'', Seq ''abc''], trace = []\<rparr>"]
    calc_k_errors[of "Ref 1" "Ref 1" "Ref 0" "\<lparr>heap = [Kernel 1 1 ''sk'', Seq ''abc''], trace = []\<rparr>" "''abc''" "''abc''"]
  by (simp add: seq_of_def)

text \<open>
  C4 as stated fails: the error of a call with \<open>None\<close> is a \<open>TypeError\<close>, not an
  \<open>InvalidInputError\<close>, and so is the error of a call that leaves a sequence out.
\<close>

theorem calc_k_none_counterexample:
  "fst (calc_k (Ref 0) PyNone (Ref 1) \<lparr>heap = [Kernel 1 1 ''sk'', Seq ''abc''], trace = []\<rparr>) = Inl TypeError
   \<and> fst (calc_k (Ref 0) PyNone (Ref 1) \<lparr>heap = [Kernel 1 1 ''sk'', Seq ''abc''], trace = []\<rparr>) \<noteq> Inl InvalidInputError
   \<and> fst (calc_k (Ref 0) (Ref 1) Absent \<lparr>heap = [Kernel 1 1 ''sk'', Seq ''abc''], trace = []\<rparr>) \<noteq> Inl InvalidInputError"
  by (simp add: calc_k_def len_def)

text \<open>
  C8. The result of \<open>calc_k\<close> depends only on the two sequences its arguments denote: two
  calls whose arguments denote the same sequences return the same result, whatever the
  store, the history, the kernel instance and the references are. In particular a second
  call with the same arguments, made in the state the first call left, returns what the
  first returned.
\<close>

theorem calc_k_deterministic:
  "(seq_of st a1 = seq_of st' b1 \<and> seq_of st a2 = seq_of st' b2 \<longrightarrow>
      fst (calc_k self a1 a2 st) = fst (calc_k self' b1 b2 st'))
   \<and> fst (calc_k self a1 a2 (snd (calc_k self a1 a2 st))) = fst (calc_k self a1 a2 st)"
  using calc_k_depends[of st a1 st' b1 a2 b2 self self']
    calc_k_depends[of "snd (calc_k self a1 a2 st)" a1 st a1 a2 a2 self self]
  by (simp add: seq_of_calc_k)

theorem calc_k_deterministic_witness:
  "seq_of \<lparr>heap = [Kernel 1 1 ''sk'', Seq ''cat'', Seq ''car''], trace = []\<rparr> (Ref 1)
     = seq_of \<lparr>heap = [Seq ''car'', Floats [1, 2], Seq ''cat'', Kernel 1 1 ''k2''], trace = [[]]\<rparr> (Ref 2)
   \<and> seq_of \<lparr>heap = [Kernel 1 1 ''sk'', Seq ''cat'', Seq ''car''], trace = []\<rparr> (Ref 2)
     = seq_of \<lparr>heap = [Seq ''car'', Floats [1, 2], Seq ''cat'', Kernel 1 1 ''k2''], trace = [[]]\<rparr> (Ref 0)
   \<and> fst (calc_k (Ref 0) (Ref 1) (Ref 2) \<lparr>heap = [Kernel 1 1 ''sk'', Seq ''cat'', Seq ''car''], trace = []\<rparr>)
     = fst (calc_k (Ref 3) (Ref 2) (Ref 0)
         \<lparr>heap = [Seq ''car'', Floats [1, 2], Seq ''cat'', Kernel 1 1 ''k2''], trace = [[]]\<rparr>)"
  using calc_k_deterministic[of "\<lparr>heap = [Kernel 1 1 ''sk'', Seq ''cat'', Seq ''car''], trace = []\<rparr>" "Ref 1"
      "\<lparr>heap = [Seq ''car'', Floats [1, 2], Seq ''cat'', Kernel 1 1 ''k2''], trace = [[]]\<rparr>" "Ref 2"
      "Ref 2" "Ref 0" "Ref 0" "Ref 3"]
  by (simp add: seq_of_def)

text \<open>
  C9. A call changes no object of the caller's store: the store after the call is the store
  before it, followed by the objects the call made. So the input sequences and the kernel
  instance are as they were, every argument denotes after the call what it denoted before,
  and no later call, whatever its arguments, returns anything else than it would have
  returned without this call. The value returned is a number, not a reference, so nothing
  the call made can be reached from it.
\<close>

theorem calc_k_no_side_effects:
  "take (length (heap st)) (heap (snd (calc_k self a1 a2 st))) = heap st
   \<and> (\<forall>a. seq_of (snd (calc_k self a1 a2 st)) a = seq_of st a)
   \<and> (\<forall>self' b1 b2. fst (calc_k self' b1 b2 (snd (calc_k self a1 a2 st))) = fst (calc_k self' b1 b2 st))"
proof (intro conjI allI)
  show "take (length (heap st)) (heap (snd (calc_k self a1 a2 st))) = heap st"
    using calc_k_heap[of self a1 a2 st] by auto
  show "seq_of (snd (calc_k self a1 a2 st)) a = seq_of st a" for a
    by (rule seq_of_calc_k)
  show "fst (calc_k self' b1 b2 (snd (calc_k self a1 a2 st))) = fst (calc_k self' b1 b2 st)" for self' b1 b2
    by (rule calc_k_depends) (simp_all add: seq_of_calc_k)
qed

text \<open>
  C10. \<open>dp\<close> is the reference \<open>Suc (length (heap st))\<close>, the second object the call makes.
  In the store after every statement from the one that builds \<open>dp\<close> on, and for all rows
  \<open>i\<close>, \<open>j\<close> up to \<open>n\<close> and every column \<open>k\<close> up to \<open>m\<close>: \<open>dp[i][k]\<close> is defined and equals
  \<open>dp[j][k]\<close>, and an assignment \<open>dp[i][k] = v\<close> makes \<open>dp[j][k]\<close> read \<open>v\<close>. When the call
  returns, every row of \<open>dp\<close>, row \<open>i - 1\<close> included, reads as the last row of the reference
  grid: a read of \<open>dp[i-1][k]\<close> made after iteration \<open>i\<close> sees what that and the later
  iterations wrote, not row \<open>i - 1\<close> of the reference grid. (On \<open>a\<close> and \<open>a\<close>, \<open>dp[0][1]\<close>
  reads 2 at the end, where the reference grid has 1.) The reads the method itself makes
  are each made before the write of the same column in the same iteration, which is why
  its result is still the one of the reference recurrence (C1).
\<close>

theorem dp_rows_shared:
  assumes "seq_of st a1 = Some s1" "seq_of st a2 = Some s2"
  shows "length (trace st) < length (trace (snd (calc_k self a1 a2 st)))
     \<and> (\<forall>h \<in> set (drop (length (trace st)) (trace (snd (calc_k self a1 a2 st)))).
           \<forall>i\<le>length s1. \<forall>j\<le>length s1. \<forall>k\<le>length s2. \<forall>v.
             (\<exists>w. dp_cell h (Suc (length (heap st))) i k = Inr w)
             \<and> dp_cell h (Suc (length (heap st))) i k = dp_cell h (Suc (length (heap st))) j k
             \<and> (\<exists>h'. dp_assign h (Suc (length (heap st))) i k v = Inr h'
                      \<and> dp_cell h' (Suc (length (heap st))) j k = Inr v))
     \<and> (\<forall>j\<le>length s1. \<forall>k\<le>length s2.
           dp_cell (heap (snd (calc_k self a1 a2 st))) (Suc (length (heap st))) j k
             = Inr (ref_grid s1 s2 ! length s1 ! k))"
proof -
  obtain b1 b2 where b: "a1 = Ref b1" "b1 < length (heap st)" "heap st ! b1 = Seq s1"
      "a2 = Ref b2" "b2 < length (heap st)" "heap st ! b2 = Seq s2"
    using assms unfolding seq_of_Some by blast
  obtain hs R P where
    c: "calc_k self a1 a2 st =
       (Inr (R ! length s2), \<lparr>heap = tables (heap st) (length s1) R P, trace = trace st @ hs\<rparr>)"
    and r: "(R, P) = row_steps s1 s2 (replicate (length s2 + 1) 1, replicate (length s2 + 1) 0)"
    and hs: "\<forall>h \<in> set hs. shared_row (heap st) (length s1) (length s2) h"
    and ne: "hs \<noteq> []"
    using calc_k_ok[OF b(2,3,5,6), of self] unfolding b(1,4) by blast
  have R: "R = ref_grid s1 s2 ! length s1" "length R = length s2 + 1"
    using r row_steps_length(1)[of s1 s2 "(replicate (length s2 + 1) 1, replicate (length s2 + 1) 0)"]
    unfolding ref_grid_last by (metis fst_conv, metis fst_conv length_replicate)
  let ?dp = "Suc (length (heap st))"
  have tr: "trace (snd (calc_k self a1 a2 st)) = trace st @ hs"
    and hp: "heap (snd (calc_k self a1 a2 st)) = tables (heap st) (length s1) R P"
    by (simp_all add: c)
  have 1: "length (trace st) < length (trace (snd (calc_k self a1 a2 st)))"
    using ne by (simp add: tr)
  have 2: "(\<exists>w. dp_cell h ?dp i k = Inr w)
             \<and> dp_cell h ?dp i k = dp_cell h ?dp j k
             \<and> (\<exists>h'. dp_assign h ?dp i k v = Inr h' \<and> dp_cell h' ?dp j k = Inr v)"
    if "h \<in> set (drop (length (trace st)) (trace (snd (calc_k self a1 a2 st))))"
      "i \<le> length s1" "j \<le> length s1" "k \<le> length s2" for h i j k v
  proof -
    have "shared_row (heap st) (length s1) (length s2) h" using that(1) hs by (simp add: tr)
    then show ?thesis using that(2-4) by (rule shared_row_cell)
  qed
  have 3: "dp_cell (heap (snd (calc_k self a1 a2 st))) ?dp j k = Inr (ref_grid s1 s2 ! length s1 ! k)"
    if "j \<le> length s1" "k \<le> length s2" for j k
    unfolding hp R(1)[symmetric] using R(2) that by (rule tables_cell)
  show ?thesis using 1 2 3 by blast
qed

theorem dp_rows_shared_witness:
  "seq_of \<lparr>heap = [Kernel 1 1 ''sk'', Seq ''a''], trace = []\<rparr> (Ref 1) = Some ''a''
   \<and> dp_cell [Kernel 1 1 ''sk'', Seq ''a'', Floats [1, 2], Refs [2, 2], Floats [0, 1]] 3 0 1
       = dp_cell [Kernel 1 1 ''sk'', Seq ''a'', Floats [1, 2], Refs [2, 2], Floats [0, 1]] 3 1 1
   \<and> (\<exists>h'. dp_assign [Kernel 1 1 ''sk'', Seq ''a'', Floats [1, 2], Refs [2, 2], Floats [0, 1]] 3 1 1 7 = Inr h'
         \<and> dp_cell h' 3 0 1 = Inr 7)
   \<and> dp_cell (heap (snd (calc_k (Ref 0) (Ref 1) (Ref 1) \<lparr>heap = [Kernel 1 1 ''sk'', Seq ''a''], trace = []\<rparr>))) 3 0 1
       = Inr (ref_grid ''a'' ''a'' ! 1 ! 1)
   \<and> ref_grid ''a'' ''a'' ! 1 ! 1 = 2
   \<and> ref_grid ''a'' ''a'' ! 0 ! 1 = 1"
proof -
  let ?st = "\<lparr>heap = [Kernel 1 1 ''sk'', Seq ''a''], trace = []\<rparr> :: char state"
  let ?H = "[Kernel 1 1 ''sk'', Seq ''a'', Floats [1, 2], Refs [2, 2], Floats [0, 1]] :: char obj list"
  have s: "seq_of ?st (Ref 1) = Some ''a''" by (simp add: seq_of_def)
  have m: "?H \<in> set (drop (length (trace ?st)) (trace (snd (calc_k (Ref 0) (Ref 1) (Ref 1) ?st))))"
    unfolding run_a by simp
  note t = dp_rows_shared[OF s s, of "Ref 0"]
  from t m have "dp_cell ?H 3 0 1 = dp_cell ?H 3 1 1
     \<and> (\<exists>h'. dp_assign ?H 3 1 1 7 = Inr h' \<and> dp_cell h' 3 0 1 = Inr 7)"
    by (simp add: numeral_3_eq_3)
  moreover from t have "dp_cell (heap (snd (calc_k (Ref 0) (Ref 1) (Ref 1) ?st))) 3 0 1
       = Inr (ref_grid ''a'' ''a'' ! 1 ! 1)"
    by (simp add: numeral_3_eq_3)
  ultimately show ?thesis using s by (simp add: grid_a)
qed

end
